theory Spec2Isabelle
  imports Main
begin

section \<open>Data model\<close>

text \<open>
  An element of the parsed document, as \<^verbatim>\<open>xml.etree.ElementTree\<close> holds it: its tag, its
  attribute dictionary, its text (selector \<open>text_of\<close>; \<^verbatim>\<open>None\<close> when the element has no text before its first
  child) and its children in document order.
\<close>

datatype element =
  Element (tag: string) (attrib: "(string \<times> string) list")
          (text_of: "string option") (children: "element list")

text \<open>
  The values the fold builds. A dictionary is a list of items in insertion order, since
  \<^verbatim>\<open>list(d.items())[0]\<close> reads the first inserted item. A key is a string or \<^verbatim>\<open>None\<close>
  (\<^verbatim>\<open>attrib.get('NAME')\<close> of an element without that attribute).
\<close>

type_synonym pykey = "string option"

datatype pyval =
  PNone
  | PStr string
  | PDict "(pykey \<times> pyval) list"
  | PList "pyval list"

text \<open>
  The errors the code raises, and \<open>StrategyError\<close> for whatever a strategy of the caller
  raises.
\<close>

datatype error = ValueError | IndexError | AttributeError | StrategyError string

text \<open>\<^verbatim>\<open>d[k] = v\<close>: an existing key keeps its place and takes the new value, a new key goes last.\<close>

fun dict_setitem :: "('k \<times> 'v) list \<Rightarrow> 'k \<Rightarrow> 'v \<Rightarrow> ('k \<times> 'v) list" where
  "dict_setitem [] k v = [(k, v)]"
| "dict_setitem ((k', v') # d) k v =
     (if k' = k then (k', v) # d else (k', v') # dict_setitem d k v)"

text \<open>\<^verbatim>\<open>d.get(k)\<close>.\<close>

definition dict_get :: "('k \<times> 'v) list \<Rightarrow> 'k \<Rightarrow> 'v option" where
  "dict_get d k = map_of d k"

text \<open>\<^verbatim>\<open>element.attrib.get('NAME')\<close>.\<close>

definition get_NAME :: "element \<Rightarrow> string option" where
  "get_NAME e = dict_get (attrib e) ''NAME''"

text \<open>A string or \<^verbatim>\<open>None\<close> used as a value.\<close>

fun str_or_None :: "string option \<Rightarrow> pyval" where
  "str_or_None None = PNone"
| "str_or_None (Some s) = PStr s"

section \<open>The strategy contract and the repository's strategy\<close>

text \<open>
  A strategy is an object with a method \<^verbatim>\<open>recursive_parse(element)\<close>; the contract fixes
  neither what it returns nor that it returns. It is a function from the element to a value
  or a raised error. The registry is the dictionary from tags to strategies.
\<close>

type_synonym strategy = "element \<Rightarrow> error + pyval"

type_synonym registry = "string \<Rightarrow> strategy option"

text \<open>
  \<^verbatim>\<open>AttributeParsingStrategy.recursive_parse\<close>: one entry per child, keyed by the child's
  \<^verbatim>\<open>NAME\<close> attribute, holding the child's text; the result is keyed by the element's tag.
\<close>

fun attribute_loop :: "element list \<Rightarrow> (pykey \<times> pyval) list \<Rightarrow> (pykey \<times> pyval) list" where
  "attribute_loop [] child_elements = child_elements"
| "attribute_loop (child # rest) child_elements =
     attribute_loop rest (dict_setitem child_elements (get_NAME child) (str_or_None (text_of child)))"

definition AttributeParsingStrategy :: strategy where
  "AttributeParsingStrategy e = Inr (PDict [(Some (tag e), PDict (attribute_loop (children e) []))])"

section \<open>The recursive fold\<close>

text \<open>
  \<^verbatim>\<open>(name, data) = list(child_info.items())[0]\<close>: a value that is no dictionary has no
  method \<^verbatim>\<open>items\<close>, and an empty dictionary has no first item.
\<close>

fun first_item :: "pyval \<Rightarrow> error + (pykey \<times> pyval)" where
  "first_item (PDict []) = Inl IndexError"
| "first_item (PDict (kv # rest)) = Inr kv"
| "first_item v = Inl AttributeError"

text \<open>\<^verbatim>\<open>{'name': name, 'data': data}\<close>.\<close>

definition name_data :: "pykey \<Rightarrow> pyval \<Rightarrow> pyval" where
  "name_data name dat = PDict [(Some ''name'', str_or_None name), (Some ''data'', dat)]"

text \<open>The key of an element's own record: its \<^verbatim>\<open>NAME\<close> attribute, else its tag.\<close>

definition self_key :: "element \<Rightarrow> pykey" where
  "self_key e = (case get_NAME e of None \<Rightarrow> Some (tag e) | Some n \<Rightarrow> Some n)"

text \<open>
  \<^verbatim>\<open>XMLParser.recursive_parse\<close> with its two loops over the children: \<open>list_loop\<close> appends
  one \<^verbatim>\<open>{'name', 'data'}\<close> record per child, \<open>dict_loop\<close> assigns one entry per child. Each
  loop stops at the first child whose fold raises or gives no first item.
\<close>

fun recursive_parse :: "registry \<Rightarrow> element \<Rightarrow> error + pyval"
  and list_loop :: "registry \<Rightarrow> element list \<Rightarrow> pyval list \<Rightarrow> error + pyval list"
  and dict_loop :: "registry \<Rightarrow> element list \<Rightarrow> (pykey \<times> pyval) list \<Rightarrow> error + (pykey \<times> pyval) list"
where
  "recursive_parse S (Element t a x cs) =
     (case S t of
        Some strategy \<Rightarrow> strategy (Element t a x cs)
      | None \<Rightarrow>
          (let child_element_tags = map tag cs in
           if length child_element_tags \<noteq> card (set child_element_tags) then
             (case list_loop S cs [] of
                Inl err \<Rightarrow> Inl err
              | Inr child_elements \<Rightarrow>
                  Inr (PDict [(self_key (Element t a x cs), PList child_elements)]))
           else
             (case dict_loop S cs [] of
                Inl err \<Rightarrow> Inl err
              | Inr child_elements \<Rightarrow>
                  Inr (PDict [(self_key (Element t a x cs), PDict child_elements)]))))"
| "list_loop S [] child_elements = Inr child_elements"
| "list_loop S (child # rest) child_elements =
     (case recursive_parse S child of
        Inl err \<Rightarrow> Inl err
      | Inr child_info \<Rightarrow>
          (case first_item child_info of
             Inl err \<Rightarrow> Inl err
           | Inr (name, dat) \<Rightarrow> list_loop S rest (child_elements @ [name_data name dat])))"
| "dict_loop S [] child_elements = Inr child_elements"
| "dict_loop S (child # rest) child_elements =
     (case recursive_parse S child of
        Inl err \<Rightarrow> Inl err
      | Inr child_info \<Rightarrow>
          (case first_item child_info of
             Inl err \<Rightarrow> Inl err
           | Inr (name, dat) \<Rightarrow> dict_loop S rest (dict_setitem child_elements name dat)))"

section \<open>The converter and its cursor\<close>

text \<open>
  The converter's tree is never changed after it is read, so a reference to an element
  object is its position in the tree (the child indices from the root) together with the
  element found there. Python compares element objects by identity (the element class
  defines no equality of its own): two references are the same object exactly when their
  positions are equal.
\<close>

type_synonym ref = "nat list \<times> element"

fun elem_at :: "element \<Rightarrow> nat list \<Rightarrow> element option" where
  "elem_at e [] = Some e"
| "elem_at e (i # p) = (if i < length (children e) then elem_at (children e ! i) p else None)"

text \<open>\<^verbatim>\<open>list(parent)\<close>, \<^verbatim>\<open>for child in parent\<close>: the references to the direct children.\<close>

definition child_refs :: "ref \<Rightarrow> ref list" where
  "child_refs r = map (\<lambda>(i, child). (fst r @ [i], child)) (enumerate 0 (children (snd r)))"

text \<open>\<^verbatim>\<open>root.iter()\<close>: the element itself, then its descendants, in document order.\<close>

fun iter :: "nat list \<Rightarrow> element \<Rightarrow> ref list"
  and iter_children :: "nat list \<Rightarrow> nat \<Rightarrow> element list \<Rightarrow> ref list"
where
  "iter pos (Element t a x cs) = (pos, Element t a x cs) # iter_children pos 0 cs"
| "iter_children pos i [] = []"
| "iter_children pos i (child # rest) = iter (pos @ [i]) child @ iter_children pos (Suc i) rest"

record converter =
  root :: element
  current_element :: ref
  current_path :: "string list"
  data :: "(string option \<times> string option) list"
  parsing_strategies :: registry

text \<open>\<^verbatim>\<open>XMLParser.__init__\<close>, given the tree read from the file.\<close>

definition init :: "element \<Rightarrow> registry \<Rightarrow> converter" where
  "init r S = \<lparr>root = r, current_element = ([], r), current_path = [tag r],
                data = [], parsing_strategies = S\<rparr>"

definition set_strategy :: "converter \<Rightarrow> registry \<Rightarrow> converter" where
  "set_strategy c S = c\<lparr>parsing_strategies := S\<rparr>"

definition get_current_info :: "converter \<Rightarrow> string \<times> string option \<times> string option" where
  "get_current_info c =
     (let e = snd (current_element c) in (tag e, get_NAME e, text_of e))"

text \<open>\<^verbatim>\<open>sep.join(xs)\<close>.\<close>

fun join :: "string \<Rightarrow> string list \<Rightarrow> string" where
  "join sep [] = []"
| "join sep [x] = x"
| "join sep (x # y # ys) = x @ sep @ join sep (y # ys)"

definition get_current_path :: "converter \<Rightarrow> string" where
  "get_current_path c = join ''/'' (current_path c)"

definition get_child_info :: "converter \<Rightarrow> (string \<times> string option \<times> string option) list" where
  "get_child_info c =
     map (\<lambda>child. (tag child, get_NAME child, text_of child)) (children (snd (current_element c)))"

text \<open>
  \<^verbatim>\<open>re.match(r'(.*)\[(.*)]', s)\<close>. The match starts at the beginning of \<open>s\<close> and need not
  reach its end; \<^verbatim>\<open>.\<close> matches every character but the newline, so both groups lie in the
  first line of \<open>s\<close>. Both groups are greedy: the first group ends at the last \<^verbatim>\<open>[\<close> that
  still has a \<^verbatim>\<open>]\<close> after it, and the second group ends at the last \<^verbatim>\<open>]\<close> of the line.
\<close>

fun last_index :: "char \<Rightarrow> string \<Rightarrow> nat option" where
  "last_index ch [] = None"
| "last_index ch (x # xs) =
     (case last_index ch xs of
        Some i \<Rightarrow> Some (Suc i)
      | None \<Rightarrow> (if x = ch then Some 0 else None))"

definition re_match :: "string \<Rightarrow> (string \<times> string) option" where
  "re_match s =
     (let line = takeWhile (\<lambda>ch. ch \<noteq> CHR 0x0A) s in
      case last_index CHR '']'' line of
        None \<Rightarrow> None
      | Some j \<Rightarrow>
          (case last_index CHR ''['' (take j line) of
             None \<Rightarrow> None
           | Some i \<Rightarrow> Some (take i line, drop (Suc i) (take j line))))"

text \<open>
  \<^verbatim>\<open>xs[i]\<close> for an integer \<open>i\<close>: a negative index counts from the end, and an index outside
  the list raises \<^verbatim>\<open>IndexError\<close>.
\<close>

definition py_index :: "'a list \<Rightarrow> int \<Rightarrow> error + 'a" where
  "py_index xs i =
     (if 0 \<le> i \<and> i < int (length xs) then Inr (xs ! nat i)
      else if i < 0 \<and> - int (length xs) \<le> i then Inr (xs ! nat (int (length xs) + i))
      else Inl IndexError)"

text \<open>
  The navigation methods return the raised error, if any, and the converter as the call
  leaves it.
\<close>

definition children_with_info :: "converter \<Rightarrow> string \<Rightarrow> ref list" where
  "children_with_info c child_info =
     (case re_match child_info of
        Some (tg, name) \<Rightarrow>
          filter (\<lambda>child. tag (snd child) = tg \<and> get_NAME (snd child) = Some name)
                 (child_refs (current_element c))
      | None \<Rightarrow>
          filter (\<lambda>child. tag (snd child) = child_info) (child_refs (current_element c)))"

definition go_to_child :: "converter \<Rightarrow> string \<Rightarrow> int \<Rightarrow> error option \<times> converter" where
  "go_to_child c child_info occurrence =
     (if occurrence < int (length (children_with_info c child_info)) then
        (case py_index (children_with_info c child_info) occurrence of
           Inl err \<Rightarrow> (Some err, c)
         | Inr child \<Rightarrow>
             (None, c\<lparr>current_element := child,
                       current_path := current_path c @ [child_info]\<rparr>))
      else (Some ValueError, c))"

text \<open>
  \<^verbatim>\<open>go_to_parent\<close>: the search runs over \<^verbatim>\<open>root.iter()\<close> and stops at the first element
  that has the cursor among its children; \<^verbatim>\<open>current_path.pop()\<close> raises on an empty list,
  after the cursor has moved. When the search finds nothing the method returns normally.
\<close>

definition go_to_parent :: "converter \<Rightarrow> error option \<times> converter" where
  "go_to_parent c =
     (if fst (current_element c) = [] then (Some ValueError, c)
      else
        (case find (\<lambda>parent. fst (current_element c) \<in> set (map fst (child_refs parent)))
                   (iter [] (root c)) of
           Some parent \<Rightarrow>
             (if current_path c = [] then (Some IndexError, c\<lparr>current_element := parent\<rparr>)
              else (None, c\<lparr>current_element := parent,
                             current_path := butlast (current_path c)\<rparr>))
         | None \<Rightarrow> (None, c)))"

section \<open>Flat extraction by path\<close>

text \<open>\<^verbatim>\<open>s.split(sep)\<close> for a separator of one character; \<open>cur\<close> is the piece being read.\<close>

fun split_from :: "char \<Rightarrow> string \<Rightarrow> string \<Rightarrow> string list" where
  "split_from sep cur [] = [cur]"
| "split_from sep cur (x # xs) =
     (if x = sep then cur # split_from sep [] xs else split_from sep (cur @ [x]) xs)"

definition str_split :: "string \<Rightarrow> char \<Rightarrow> string list" where
  "str_split s sep = split_from sep [] s"

text \<open>
  The loop of \<^verbatim>\<open>add_to_data\<close> over the path's segments. A segment with a name takes the
  first child with that tag and that \<^verbatim>\<open>NAME\<close>; a bare segment is handed to the library's
  \<^verbatim>\<open>find\<close>, which for an element name returns the first child with that tag. The
  library reads the segment as a path expression: a segment that is not an element name
  (\<^verbatim>\<open>.\<close>, \<^verbatim>\<open>*\<close>, \<^verbatim>\<open>..\<close>, a segment with a bracket or another operator of the path
  language) is outside this model, and nothing below is stated for such a segment.
\<close>

fun resolve :: "element \<Rightarrow> string list \<Rightarrow> error + element" where
  "resolve current [] = Inr current"
| "resolve current (seg # rest) =
     (case re_match seg of
        Some (tg, name) \<Rightarrow>
          (case find (\<lambda>child. tag child = tg \<and> get_NAME child = Some name) (children current) of
             Some child \<Rightarrow> resolve child rest
           | None \<Rightarrow> Inl ValueError)
      | None \<Rightarrow>
          (case find (\<lambda>child. tag child = seg) (children current) of
             None \<Rightarrow> Inl ValueError
           | Some child \<Rightarrow> resolve child rest))"

definition add_to_data :: "converter \<Rightarrow> string \<Rightarrow> string option \<Rightarrow> error option \<times> converter" where
  "add_to_data c path key =
     (let elements = drop 1 (str_split path CHR ''/'') in
      case resolve (root c) elements of
        Inl err \<Rightarrow> (Some err, c)
      | Inr current \<Rightarrow>
          (let k = (case key of Some k' \<Rightarrow> Some k' | None \<Rightarrow> get_NAME current);
               v = text_of current
           in (None, c\<lparr>data := dict_setitem (data c) k v\<rparr>)))"

text \<open>\<^verbatim>\<open>XMLParser.parse\<close>.\<close>

definition parse :: "converter \<Rightarrow> error + pyval" where
  "parse c = recursive_parse (parsing_strategies c) (root c)"

section \<open>The fold with a record of its dispatches\<close>

text \<open>
  The same three functions, each returning next to its result the elements it was called
  on, in the order of the calls, marked with the branch \<^verbatim>\<open>recursive_parse\<close> took there:
  the registered strategy or the default logic. A loop that stops at a raised error records
  nothing for the children it does not reach, and nothing is recorded inside an element
  that a strategy folds, since the strategy and not \<^verbatim>\<open>recursive_parse\<close> reads its children.
\<close>

datatype dispatch = ByStrategy element | ByDefault element

fun recursive_parse_log :: "registry \<Rightarrow> element \<Rightarrow> (error + pyval) \<times> dispatch list"
  and list_loop_log ::
    "registry \<Rightarrow> element list \<Rightarrow> pyval list \<Rightarrow> (error + pyval list) \<times> dispatch list"
  and dict_loop_log ::
    "registry \<Rightarrow> element list \<Rightarrow> (pykey \<times> pyval) list \<Rightarrow>
       (error + (pykey \<times> pyval) list) \<times> dispatch list"
where
  "recursive_parse_log S (Element t a x cs) =
     (case S t of
        Some strategy \<Rightarrow> (strategy (Element t a x cs), [ByStrategy (Element t a x cs)])
      | None \<Rightarrow>
          (let child_element_tags = map tag cs in
           if length child_element_tags \<noteq> card (set child_element_tags) then
             (case list_loop_log S cs [] of
                (Inl err, calls) \<Rightarrow> (Inl err, ByDefault (Element t a x cs) # calls)
              | (Inr child_elements, calls) \<Rightarrow>
                  (Inr (PDict [(self_key (Element t a x cs), PList child_elements)]),
                   ByDefault (Element t a x cs) # calls))
           else
             (case dict_loop_log S cs [] of
                (Inl err, calls) \<Rightarrow> (Inl err, ByDefault (Element t a x cs) # calls)
              | (Inr child_elements, calls) \<Rightarrow>
                  (Inr (PDict [(self_key (Element t a x cs), PDict child_elements)]),
                   ByDefault (Element t a x cs) # calls))))"
| "list_loop_log S [] child_elements = (Inr child_elements, [])"
| "list_loop_log S (child # rest) child_elements =
     (case recursive_parse_log S child of
        (Inl err, calls) \<Rightarrow> (Inl err, calls)
      | (Inr child_info, calls) \<Rightarrow>
          (case first_item child_info of
             Inl err \<Rightarrow> (Inl err, calls)
           | Inr (name, dat) \<Rightarrow>
               (case list_loop_log S rest (child_elements @ [name_data name dat]) of
                  (res, calls') \<Rightarrow> (res, calls @ calls'))))"
| "dict_loop_log S [] child_elements = (Inr child_elements, [])"
| "dict_loop_log S (child # rest) child_elements =
     (case recursive_parse_log S child of
        (Inl err, calls) \<Rightarrow> (Inl err, calls)
      | (Inr child_info, calls) \<Rightarrow>
          (case first_item child_info of
             Inl err \<Rightarrow> (Inl err, calls)
           | Inr (name, dat) \<Rightarrow>
               (case dict_loop_log S rest (dict_setitem child_elements name dat) of
                  (res, calls') \<Rightarrow> (res, calls @ calls'))))"

section \<open>Converter states\<close>

text \<open>
  The cursor of a converter always refers to an element of its tree, and the path stack
  holds one entry for the root and one for every step down: \<^verbatim>\<open>__init__\<close> sets both up so,
  and the methods keep it so. \<open>reachable\<close> are the states a caller can get through the
  methods.
\<close>

definition wf_converter :: "converter \<Rightarrow> bool" where
  "wf_converter c \<longleftrightarrow>
     elem_at (root c) (fst (current_element c)) = Some (snd (current_element c)) \<and>
     length (current_path c) = Suc (length (fst (current_element c)))"

inductive reachable :: "converter \<Rightarrow> bool" where
  r_init: "reachable (init r S)"
| r_set_strategy: "reachable c \<Longrightarrow> reachable (set_strategy c S)"
| r_go_to_child: "reachable c \<Longrightarrow> reachable (snd (go_to_child c child_info occurrence))"
| r_go_to_parent: "reachable c \<Longrightarrow> reachable (snd (go_to_parent c))"
| r_add_to_data: "reachable c \<Longrightarrow> reachable (snd (add_to_data c path key))"

section \<open>The documents of the scenarios\<close>

text \<open>\<^verbatim>\<open><ROOT><ITEM NAME="a">1</ITEM><ITEM NAME="b">2</ITEM></ROOT>\<close>\<close>

definition doc_items :: element where
  "doc_items = Element ''ROOT'' [] None
     [Element ''ITEM'' [(''NAME'', ''a'')] (Some ''1'') [],
      Element ''ITEM'' [(''NAME'', ''b'')] (Some ''2'') []]"

text \<open>\<^verbatim>\<open><ROOT><X NAME="p">1</X><Y NAME="q">2</Y></ROOT>\<close>\<close>

definition doc_xy :: element where
  "doc_xy = Element ''ROOT'' [] None
     [Element ''X'' [(''NAME'', ''p'')] (Some ''1'') [],
      Element ''Y'' [(''NAME'', ''q'')] (Some ''2'') []]"

text \<open>
  \<^verbatim>\<open><ROOT><ATTRIBUTES><ATTR NAME="h">3</ATTR></ATTRIBUTES><POLE NAME="p1"/></ROOT>\<close>, and
  the registry of \<^verbatim>\<open>main\<close>: \<^verbatim>\<open>{"ATTRIBUTES": AttributeParsingStrategy()}\<close>.
\<close>

definition doc_attributes :: element where
  "doc_attributes = Element ''ROOT'' [] None
     [Element ''ATTRIBUTES'' [] None [Element ''ATTR'' [(''NAME'', ''h'')] (Some ''3'') []],
      Element ''POLE'' [(''NAME'', ''p1'')] None []]"

definition main_strategies :: registry where
  "main_strategies = [''ATTRIBUTES'' \<mapsto> AttributeParsingStrategy]"

text \<open>
  \<^verbatim>\<open><ROOT><POLE NAME="p1"><ATTRIBUTES><ATTR NAME="h">3</ATTR></ATTRIBUTES></POLE></ROOT>\<close>:
  the tag with the registered strategy lies two levels below the root.
\<close>

definition doc_nested :: element where
  "doc_nested = Element ''ROOT'' [] None
     [Element ''POLE'' [(''NAME'', ''p1'')] None
        [Element ''ATTRIBUTES'' [] None [Element ''ATTR'' [(''NAME'', ''h'')] (Some ''3'') []]]]"

text \<open>
  A strategy of a caller that returns the empty dictionary for every element, registered
  for the tag \<^verbatim>\<open>EMPTY\<close>, and the document \<^verbatim>\<open><ROOT><EMPTY/></ROOT>\<close>.
\<close>

definition empty_record_strategy :: strategy where
  "empty_record_strategy e = Inr (PDict [])"

definition empty_record_strategies :: registry where
  "empty_record_strategies = [''EMPTY'' \<mapsto> empty_record_strategy]"

definition doc_empty :: element where
  "doc_empty = Element ''ROOT'' [] None [Element ''EMPTY'' [] None []]"

section \<open>Dictionaries\<close>

lemma dict_get_Nil: "dict_get [] k = None"
  by (simp add: dict_get_def)

lemma dict_get_setitem:
  "dict_get (dict_setitem d k v) k' = (if k' = k then Some v else dict_get d k')"
  by (induction d) (auto simp: dict_get_def)

text \<open>Assigning items one after the other: the last item with a key decides its value.\<close>

lemma dict_get_foldl:
  "dict_get (foldl (\<lambda>d (k, v). dict_setitem d k v) acc kvs) k =
     (case map_of (rev kvs) k of Some v \<Rightarrow> Some v | None \<Rightarrow> dict_get acc k)"
proof (induction kvs arbitrary: acc)
  case Nil
  then show ?case by simp
next
  case (Cons kv kvs)
  obtain k' v' where kv: "kv = (k', v')" by (cases kv)
  show ?case unfolding kv
    by (simp add: Cons.IH dict_get_setitem map_add_def split: option.splits)
qed

text \<open>The keys stay distinct, and the dictionary read as a map is the map of the items.\<close>

lemma map_of_setitem: "map_of (dict_setitem d k v) = (map_of d)(k \<mapsto> v)"
  by (induction d) (auto simp: fun_eq_iff)

lemma keys_setitem: "fst ` set (dict_setitem d k v) = insert k (fst ` set d)"
  by (induction d k v rule: dict_setitem.induct) auto

lemma distinct_setitem: "distinct (map fst d) \<Longrightarrow> distinct (map fst (dict_setitem d k v))"
  by (induction d k v rule: dict_setitem.induct) (auto simp: keys_setitem)

lemma foldl_setitem:
  "map_of (foldl (\<lambda>d (k, v). dict_setitem d k v) acc kvs) = map_of acc ++ map_of (rev kvs)"
  "fst ` set (foldl (\<lambda>d (k, v). dict_setitem d k v) acc kvs) =
     fst ` set acc \<union> fst ` set kvs"
  "distinct (map fst acc) \<Longrightarrow>
     distinct (map fst (foldl (\<lambda>d (k, v). dict_setitem d k v) acc kvs))"
proof (induction kvs arbitrary: acc)
  case Nil
  {
    case 1 show ?case by simp
  next
    case 2 show ?case by simp
  next
    case 3 then show ?case by simp
  }
next
  case (Cons kv kvs)
  obtain k v where kv: "kv = (k, v)" by (cases kv)
  {
    case 1
    show ?case unfolding kv
      by (simp add: Cons.IH(1) map_of_setitem map_add_upd_left fun_eq_iff map_add_def
          split: option.splits)
  next
    case 2
    show ?case unfolding kv by (simp add: Cons.IH(2) keys_setitem)
  next
    case 3
    then show ?case unfolding kv by (simp add: Cons.IH(3) distinct_setitem)
  }
qed

section \<open>The fold: dispatch and the two loops\<close>

text \<open>The collision test \<^verbatim>\<open>len(tags) != len(set(tags))\<close> says that some tag repeats.\<close>

lemma length_card_tags:
  "(length cs = card (f ` set cs)) = distinct (map f cs)"
proof
  assume "length cs = card (f ` set cs)"
  then have "card (set (map f cs)) = length (map f cs)" by simp
  then show "distinct (map f cs)" by (rule card_distinct)
next
  assume "distinct (map f cs)"
  then have "card (set (map f cs)) = length (map f cs)" by (rule distinct_card)
  then show "length cs = card (f ` set cs)" by simp
qed

lemma recursive_parse_registered:
  "S (tag e) = Some f \<Longrightarrow> recursive_parse S e = f e"
  by (cases e) simp

lemma recursive_parse_default:
  "S (tag e) = None \<Longrightarrow>
   recursive_parse S e =
     (if distinct (map tag (children e))
      then (case dict_loop S (children e) [] of
              Inl err \<Rightarrow> Inl err
            | Inr d \<Rightarrow> Inr (PDict [(self_key e, PDict d)]))
      else (case list_loop S (children e) [] of
              Inl err \<Rightarrow> Inl err
            | Inr l \<Rightarrow> Inr (PDict [(self_key e, PList l)])))"
  by (cases e) (auto simp add: Let_def length_card_tags)

lemma recursive_parse_leaf:
  "S (tag e) = None \<Longrightarrow> children e = [] \<Longrightarrow>
   recursive_parse S e = Inr (PDict [(self_key e, PDict [])])"
  by (simp add: recursive_parse_default)

text \<open>
  When every child's fold returns a dictionary with a first item, the loops run to the end:
  \<open>kvs\<close> lists those first items in document order.
\<close>

lemma list_loop_items:
  "list_all2 (\<lambda>c kv. \<exists>rest. recursive_parse S c = Inr (PDict (kv # rest))) cs kvs \<Longrightarrow>
   list_loop S cs acc = Inr (acc @ map (\<lambda>(k, v). name_data k v) kvs)"
proof (induction cs arbitrary: kvs acc)
  case Nil
  then show ?case by simp
next
  case (Cons c cs)
  then obtain kv kvs' rest where kvs: "kvs = kv # kvs'"
    and c: "recursive_parse S c = Inr (PDict (kv # rest))"
    and rest: "list_all2 (\<lambda>c kv. \<exists>rest. recursive_parse S c = Inr (PDict (kv # rest))) cs kvs'"
    by (auto simp: list_all2_Cons1)
  show ?case using Cons.IH [OF rest] c kvs
    by (cases kv) simp
qed

lemma dict_loop_items:
  "list_all2 (\<lambda>c kv. \<exists>rest. recursive_parse S c = Inr (PDict (kv # rest))) cs kvs \<Longrightarrow>
   dict_loop S cs acc = Inr (foldl (\<lambda>d (k, v). dict_setitem d k v) acc kvs)"
proof (induction cs arbitrary: kvs acc)
  case Nil
  then show ?case by simp
next
  case (Cons c cs)
  then obtain kv kvs' rest where kvs: "kvs = kv # kvs'"
    and c: "recursive_parse S c = Inr (PDict (kv # rest))"
    and rest: "list_all2 (\<lambda>c kv. \<exists>rest. recursive_parse S c = Inr (PDict (kv # rest))) cs kvs'"
    by (auto simp: list_all2_Cons1)
  show ?case using Cons.IH [OF rest] c kvs
    by (cases kv) simp
qed

text \<open>
  A registry whose strategies all return single-key records makes every fold return one.
\<close>

lemma list_all2_choice:
  "\<forall>x \<in> set xs. \<exists>y. P x y \<Longrightarrow> \<exists>ys. list_all2 P xs ys"
proof (induction xs)
  case Nil
  then show ?case by simp
next
  case (Cons x xs)
  then obtain y ys where "P x y" "list_all2 P xs ys" by auto
  then have "list_all2 P (x # xs) (y # ys)" by simp
  then show ?case by blast
qed

lemma fold_single_key:
  assumes ok: "\<And>t f el. S t = Some f \<Longrightarrow> \<exists>k v. f el = Inr (PDict [(k, v)])"
  shows "\<exists>k v. recursive_parse S e = Inr (PDict [(k, v)])"
proof (induction e)
  case (Element t a x cs)
  show ?case
  proof (cases "S t")
    case (Some f)
    then have "recursive_parse S (Element t a x cs) = f (Element t a x cs)" by simp
    with ok [OF Some] show ?thesis by simp
  next
    case None
    have "\<forall>c \<in> set cs. \<exists>kv. \<exists>rest. recursive_parse S c = Inr (PDict (kv # rest))"
    proof
      fix c assume "c \<in> set cs"
      then obtain k v where "recursive_parse S c = Inr (PDict [(k, v)])"
        using Element.IH by blast
      then show "\<exists>kv. \<exists>rest. recursive_parse S c = Inr (PDict (kv # rest))" by blast
    qed
    then have "\<exists>kvs. list_all2 (\<lambda>c kv. \<exists>rest. recursive_parse S c = Inr (PDict (kv # rest))) cs kvs"
      by (rule list_all2_choice)
    then obtain kvs where
      kvs: "list_all2 (\<lambda>c kv. \<exists>rest. recursive_parse S c = Inr (PDict (kv # rest))) cs kvs" ..
    have none: "S (tag (Element t a x cs)) = None" using None by simp
    have l: "list_loop S (children (Element t a x cs)) [] = Inr ([] @ map (\<lambda>(k, v). name_data k v) kvs)"
      using kvs by (simp only: list_loop_items element.sel)
    have d: "dict_loop S (children (Element t a x cs)) [] = Inr (foldl (\<lambda>d (k, v). dict_setitem d k v) [] kvs)"
      using kvs by (simp only: dict_loop_items element.sel)
    show ?thesis
      unfolding recursive_parse_default [of S "Element t a x cs", OF none] l d by simp
  qed
qed

lemma loops_return:
  assumes "\<forall>c \<in> set cs. \<exists>k v. recursive_parse S c = Inr (PDict [(k, v)])"
  shows "(\<exists>l. list_loop S cs [] = Inr l) \<and> (\<exists>d. dict_loop S cs [] = Inr d)"
proof -
  have "\<forall>c \<in> set cs. \<exists>kv. \<exists>rest. recursive_parse S c = Inr (PDict (kv # rest))"
  proof
    fix c assume "c \<in> set cs"
    then obtain k v where "recursive_parse S c = Inr (PDict [(k, v)])"
      using assms by blast
    then show "\<exists>kv. \<exists>rest. recursive_parse S c = Inr (PDict (kv # rest))" by blast
  qed
  then have "\<exists>kvs. list_all2 (\<lambda>c kv. \<exists>rest. recursive_parse S c = Inr (PDict (kv # rest))) cs kvs"
    by (rule list_all2_choice)
  then obtain kvs where
    "list_all2 (\<lambda>c kv. \<exists>rest. recursive_parse S c = Inr (PDict (kv # rest))) cs kvs" ..
  then show ?thesis
    by (simp add: list_loop_items dict_loop_items)
qed

section \<open>The record of dispatches\<close>

text \<open>
  Recording the dispatches does not change the results, and an element is recorded under
  the default logic only when its tag has no registered strategy.
\<close>

lemma log_result:
  "fst (recursive_parse_log S e) = recursive_parse S e"
  "fst (list_loop_log S cs l) = list_loop S cs l"
  "fst (dict_loop_log S cs d) = dict_loop S cs d"
proof (induction S e and S cs l and S cs d
    rule: recursive_parse_log_list_loop_log_dict_loop_log.induct)
  case (1 S t a x cs)
  show ?case
  proof (cases "S t")
    case (Some f)
    then show ?thesis by simp
  next
    case None
    show ?thesis
    proof (cases "length (map tag cs) \<noteq> card (set (map tag cs))")
      case True
      from "1.IH"(1) [OF None refl True]
      have "fst (list_loop_log S cs []) = list_loop S cs []" .
      with None True show ?thesis
        by (cases "list_loop_log S cs []") (auto simp: Let_def split: sum.splits)
    next
      case False
      from "1.IH"(2) [OF None refl False]
      have "fst (dict_loop_log S cs []) = dict_loop S cs []" .
      with None False show ?thesis
        by (cases "dict_loop_log S cs []") (auto simp: Let_def split: sum.splits)
    qed
  qed
next
  case (2 S child_elements)
  show ?case by simp
next
  case (3 S child rest child_elements)
  obtain r calls where rc: "recursive_parse_log S child = (r, calls)"
    by (cases "recursive_parse_log S child")
  with "3.IH"(1) have r: "recursive_parse S child = r" by simp
  show ?case
  proof (cases r)
    case (Inl err)
    with rc r show ?thesis by simp
  next
    case (Inr child_info)
    show ?thesis
    proof (cases "first_item child_info")
      case (Inl err)
      with rc r Inr show ?thesis by simp
    next
      case item: (Inr kv)
      obtain name dat where kv: "kv = (name, dat)" by (cases kv)
      from "3.IH"(2) [OF rc [symmetric] Inr item [unfolded kv] refl]
      have "fst (list_loop_log S rest (child_elements @ [name_data name dat])) =
            list_loop S rest (child_elements @ [name_data name dat])" .
      with rc r Inr item kv show ?thesis
        by (auto split: prod.splits)
    qed
  qed
next
  case (4 S child_elements)
  show ?case by simp
next
  case (5 S child rest child_elements)
  obtain r calls where rc: "recursive_parse_log S child = (r, calls)"
    by (cases "recursive_parse_log S child")
  with "5.IH"(1) have r: "recursive_parse S child = r" by simp
  show ?case
  proof (cases r)
    case (Inl err)
    with rc r show ?thesis by simp
  next
    case (Inr child_info)
    show ?thesis
    proof (cases "first_item child_info")
      case (Inl err)
      with rc r Inr show ?thesis by simp
    next
      case item: (Inr kv)
      obtain name dat where kv: "kv = (name, dat)" by (cases kv)
      from "5.IH"(2) [OF rc [symmetric] Inr item [unfolded kv] refl]
      have "fst (dict_loop_log S rest (dict_setitem child_elements name dat)) =
            dict_loop S rest (dict_setitem child_elements name dat)" .
      with rc r Inr item kv show ?thesis
        by (auto split: prod.splits)
    qed
  qed
qed

lemma log_branches:
  "ev \<in> set (snd (recursive_parse_log S e)) \<Longrightarrow>
     (case ev of ByStrategy el \<Rightarrow> S (tag el) \<noteq> None | ByDefault el \<Rightarrow> S (tag el) = None)"
  "ev \<in> set (snd (list_loop_log S cs l)) \<Longrightarrow>
     (case ev of ByStrategy el \<Rightarrow> S (tag el) \<noteq> None | ByDefault el \<Rightarrow> S (tag el) = None)"
  "ev \<in> set (snd (dict_loop_log S cs d)) \<Longrightarrow>
     (case ev of ByStrategy el \<Rightarrow> S (tag el) \<noteq> None | ByDefault el \<Rightarrow> S (tag el) = None)"
proof (induction S e and S cs l and S cs d
    rule: recursive_parse_log_list_loop_log_dict_loop_log.induct)
  case (1 S t a x cs)
  show ?case
  proof (cases "S t")
    case (Some f)
    with "1.prems" show ?thesis by simp
  next
    case None
    show ?thesis
    proof (cases "length (map tag cs) \<noteq> card (set (map tag cs))")
      case True
      from "1.prems" None True
      have "ev = ByDefault (Element t a x cs) \<or> ev \<in> set (snd (list_loop_log S cs []))"
        by (cases "list_loop_log S cs []") (auto simp: Let_def split: sum.splits)
      then show ?thesis
        using "1.IH"(1) [OF None refl True] None by auto
    next
      case False
      from "1.prems" None False
      have "ev = ByDefault (Element t a x cs) \<or> ev \<in> set (snd (dict_loop_log S cs []))"
        by (cases "dict_loop_log S cs []") (auto simp: Let_def split: sum.splits)
      then show ?thesis
        using "1.IH"(2) [OF None refl False] None by auto
    qed
  qed
next
  case (2 S child_elements)
  then show ?case by simp
next
  case (3 S child rest child_elements)
  obtain r calls where rc: "recursive_parse_log S child = (r, calls)"
    by (cases "recursive_parse_log S child")
  show ?case
  proof (cases r)
    case (Inl err)
    with rc "3.prems" have "ev \<in> set (snd (recursive_parse_log S child))" by simp
    then show ?thesis by (rule "3.IH"(1))
  next
    case (Inr child_info)
    show ?thesis
    proof (cases "first_item child_info")
      case (Inl err)
      with rc Inr "3.prems" have "ev \<in> set (snd (recursive_parse_log S child))" by simp
      then show ?thesis by (rule "3.IH"(1))
    next
      case item: (Inr kv)
      obtain name dat where kv: "kv = (name, dat)" by (cases kv)
      from rc Inr item kv "3.prems"
      have "ev \<in> set (snd (recursive_parse_log S child)) \<or>
            ev \<in> set (snd (list_loop_log S rest (child_elements @ [name_data name dat])))"
        by (auto split: prod.splits)
      then show ?thesis
        using "3.IH"(1) "3.IH"(2) [OF rc [symmetric] Inr item [unfolded kv] refl] by blast
    qed
  qed
next
  case (4 S child_elements)
  then show ?case by simp
next
  case (5 S child rest child_elements)
  obtain r calls where rc: "recursive_parse_log S child = (r, calls)"
    by (cases "recursive_parse_log S child")
  show ?case
  proof (cases r)
    case (Inl err)
    with rc "5.prems" have "ev \<in> set (snd (recursive_parse_log S child))" by simp
    then show ?thesis by (rule "5.IH"(1))
  next
    case (Inr child_info)
    show ?thesis
    proof (cases "first_item child_info")
      case (Inl err)
      with rc Inr "5.prems" have "ev \<in> set (snd (recursive_parse_log S child))" by simp
      then show ?thesis by (rule "5.IH"(1))
    next
      case item: (Inr kv)
      obtain name dat where kv: "kv = (name, dat)" by (cases kv)
      from rc Inr item kv "5.prems"
      have "ev \<in> set (snd (recursive_parse_log S child)) \<or>
            ev \<in> set (snd (dict_loop_log S rest (dict_setitem child_elements name dat)))"
        by (auto split: prod.splits)
      then show ?thesis
        using "5.IH"(1) "5.IH"(2) [OF rc [symmetric] Inr item [unfolded kv] refl] by blast
    qed
  qed
qed

section \<open>Claims about the fold\<close>

text \<open>
  C1. An element whose tag has no registered strategy, and whose children's folds each return
  a record with at least one item (\<open>kvs\<close> lists the first item of each, in document order),
  folds to the single-key record \<open>{selfKey: inner}\<close>, where \<open>selfKey\<close> is the \<^verbatim>\<open>NAME\<close>
  attribute if present and the tag otherwise. When the children's tags are all distinct,
  \<open>inner\<close> is the mapping built by assigning each child's key its value in document order:
  its keys are the children's keys, each once, and a key maps to the value of the last child
  that folds to it. When a tag repeats, \<open>inner\<close> is the list of the records
  \<^verbatim>\<open>{'name': key, 'data': value}\<close> of the children in document order, as long as the
  child list.
\<close>

theorem default_fold_shape:
  assumes "S (tag e) = None"
    and "list_all2 (\<lambda>c kv. \<exists>rest. recursive_parse S c = Inr (PDict (kv # rest))) (children e) kvs"
  shows "\<exists>inner.
     recursive_parse S e =
       Inr (PDict [(case get_NAME e of Some n \<Rightarrow> Some n | None \<Rightarrow> Some (tag e), inner)]) \<and>
     (distinct (map tag (children e)) \<longrightarrow>
        (\<exists>m. inner = PDict m \<and> m = foldl (\<lambda>d (k, v). dict_setitem d k v) [] kvs \<and>
             map_of m = map_of (rev kvs) \<and> distinct (map fst m) \<and>
             set (map fst m) = set (map fst kvs) \<and>
             (\<forall>k. dict_get m k = map_of (rev kvs) k))) \<and>
     (\<not> distinct (map tag (children e)) \<longrightarrow>
        (\<exists>l. inner = PList l \<and>
             l = map (\<lambda>(k, v). PDict [(Some ''name'', case k of None \<Rightarrow> PNone | Some s \<Rightarrow> PStr s),
                                       (Some ''data'', v)]) kvs \<and>
             length l = length (children e)))"
proof (cases "distinct (map tag (children e))")
  case True
  have "\<forall>k. dict_get (foldl (\<lambda>d (k, v). dict_setitem d k v) [] kvs) k = map_of (rev kvs) k"
    by (simp add: dict_get_foldl dict_get_Nil split: option.splits)
  moreover have "map_of (foldl (\<lambda>d (k, v). dict_setitem d k v) [] kvs) = map_of (rev kvs)"
    "distinct (map fst (foldl (\<lambda>d (k, v). dict_setitem d k v) [] kvs))"
    "set (map fst (foldl (\<lambda>d (k, v). dict_setitem d k v) [] kvs)) = set (map fst kvs)"
    by (simp_all add: foldl_setitem)
  ultimately show ?thesis using True assms
    by (simp add: recursive_parse_default dict_loop_items self_key_def split: option.splits)
next
  case False
  have "length kvs = length (children e)"
    using assms(2) by (simp add: list_all2_lengthD)
  moreover have "map (\<lambda>(k, v). name_data k v) kvs =
     map (\<lambda>(k, v). PDict [(Some ''name'', case k of None \<Rightarrow> PNone | Some s \<Rightarrow> PStr s),
                           (Some ''data'', v)]) kvs"
    by (auto simp: name_data_def split: option.splits)
  ultimately show ?thesis using False assms
    by (simp add: recursive_parse_default list_loop_items self_key_def split: option.splits)
qed

theorem default_fold_shape_witness:
  "(Map.empty (tag doc_items) = None \<and>
    list_all2 (\<lambda>c kv. \<exists>rest. recursive_parse Map.empty c = Inr (PDict (kv # rest)))
      (children doc_items) [(Some ''a'', PDict []), (Some ''b'', PDict [])] \<and>
    \<not> distinct (map tag (children doc_items)) \<and>
    recursive_parse Map.empty doc_items =
      Inr (PDict [(Some ''ROOT'',
        PList [PDict [(Some ''name'', PStr ''a''), (Some ''data'', PDict [])],
               PDict [(Some ''name'', PStr ''b''), (Some ''data'', PDict [])]])])) \<and>
   (Map.empty (tag doc_xy) = None \<and>
    list_all2 (\<lambda>c kv. \<exists>rest. recursive_parse Map.empty c = Inr (PDict (kv # rest)))
      (children doc_xy) [(Some ''p'', PDict []), (Some ''q'', PDict [])] \<and>
    distinct (map tag (children doc_xy)) \<and>
    recursive_parse Map.empty doc_xy =
      Inr (PDict [(Some ''ROOT'', PDict [(Some ''p'', PDict []), (Some ''q'', PDict [])])]))"
proof -
  have h1: "Map.empty (tag doc_items) = None" by simp
  have h2: "list_all2 (\<lambda>c kv. \<exists>rest. recursive_parse Map.empty c = Inr (PDict (kv # rest)))
      (children doc_items) [(Some ''a'', PDict []), (Some ''b'', PDict [])]"
    by (simp add: doc_items_def self_key_def get_NAME_def dict_get_def)
  have h3: "\<not> distinct (map tag (children doc_items))"
    by (simp add: doc_items_def)
  have g1: "Map.empty (tag doc_xy) = None" by simp
  have g2: "list_all2 (\<lambda>c kv. \<exists>rest. recursive_parse Map.empty c = Inr (PDict (kv # rest)))
      (children doc_xy) [(Some ''p'', PDict []), (Some ''q'', PDict [])]"
    by (simp add: doc_xy_def self_key_def get_NAME_def dict_get_def)
  have g3: "distinct (map tag (children doc_xy))"
    by (simp add: doc_xy_def)
  have t1: "get_NAME doc_items = None" "tag doc_items = ''ROOT''"
    by (simp_all add: doc_items_def get_NAME_def dict_get_def)
  have t2: "get_NAME doc_xy = None" "tag doc_xy = ''ROOT''"
    by (simp_all add: doc_xy_def get_NAME_def dict_get_def)
  from default_fold_shape [OF h1 h2] h3 t1
  have r1: "recursive_parse Map.empty doc_items =
      Inr (PDict [(Some ''ROOT'',
        PList [PDict [(Some ''name'', PStr ''a''), (Some ''data'', PDict [])],
               PDict [(Some ''name'', PStr ''b''), (Some ''data'', PDict [])]])])"
    by auto
  from default_fold_shape [OF g1 g2] g3 t2
  have r2: "recursive_parse Map.empty doc_xy =
      Inr (PDict [(Some ''ROOT'', PDict [(Some ''p'', PDict []), (Some ''q'', PDict [])])])"
    by auto
  show ?thesis
    by (intro conjI) (rule h1, rule h2, rule h3, rule r1, rule g1, rule g2, rule g3, rule r2)
qed

text \<open>
  Without the condition on the children's folds the element's fold need not return: below
  a root with no registered strategy, a child whose strategy returns the empty dictionary
  has no first item, and the fold of the root raises \<^verbatim>\<open>IndexError\<close>.
\<close>

theorem default_fold_shape_counterexample:
  "empty_record_strategies (tag doc_empty) = None \<and>
   recursive_parse empty_record_strategies doc_empty = Inl IndexError"
  by (simp add: empty_record_strategies_def empty_record_strategy_def doc_empty_def)

text \<open>
  C2. On the document with the two \<^verbatim>\<open>ITEM\<close> children and no strategies, \<^verbatim>\<open>parse\<close> returns
  the list shape, and the \<open>data\<close> of each record is the fold of a childless element, the
  empty mapping: the fold never reads an element's text.
\<close>

theorem parse_doc_items:
  "parse (init doc_items Map.empty) =
     Inr (PDict [(Some ''ROOT'',
       PList [PDict [(Some ''name'', PStr ''a''), (Some ''data'', PDict [])],
              PDict [(Some ''name'', PStr ''b''), (Some ''data'', PDict [])]])])"
  by (simp add: parse_def init_def doc_items_def self_key_def get_NAME_def dict_get_def
      name_data_def)

theorem parse_doc_items_counterexample:
  "parse (init doc_items Map.empty) \<noteq>
     Inr (PDict [(Some ''ROOT'',
       PList [PDict [(Some ''name'', PStr ''a''), (Some ''data'', PStr ''1'')],
              PDict [(Some ''name'', PStr ''b''), (Some ''data'', PStr ''2'')]])])"
  by (simp add: parse_def init_def doc_items_def self_key_def get_NAME_def dict_get_def
      name_data_def)

text \<open>
  C3. A childless element whose tag has no registered strategy folds to a record keyed by
  its \<^verbatim>\<open>NAME\<close> attribute (its tag without one) whose value is the empty mapping, and on the
  document with the children \<^verbatim>\<open>X\<close> and \<^verbatim>\<open>Y\<close> and no strategies \<^verbatim>\<open>parse\<close> returns the
  mapping shape with an empty mapping under each name.
\<close>

theorem leaf_fold_doc_xy:
  "(\<forall>S e. S (tag e) = None \<and> children e = [] \<longrightarrow>
      recursive_parse S e =
        Inr (PDict [(case get_NAME e of Some n \<Rightarrow> Some n | None \<Rightarrow> Some (tag e), PDict [])])) \<and>
   parse (init doc_xy Map.empty) =
     Inr (PDict [(Some ''ROOT'', PDict [(Some ''p'', PDict []), (Some ''q'', PDict [])])])"
proof
  show "\<forall>S e. S (tag e) = None \<and> children e = [] \<longrightarrow>
      recursive_parse S e =
        Inr (PDict [(case get_NAME e of Some n \<Rightarrow> Some n | None \<Rightarrow> Some (tag e), PDict [])])"
    by (simp add: recursive_parse_leaf self_key_def split: option.splits)
  show "parse (init doc_xy Map.empty) =
     Inr (PDict [(Some ''ROOT'', PDict [(Some ''p'', PDict []), (Some ''q'', PDict [])])])"
    by (simp add: parse_def init_def doc_xy_def self_key_def get_NAME_def dict_get_def)
qed

theorem leaf_fold_doc_xy_witness:
  "Map.empty (tag (Element ''X'' [(''NAME'', ''p'')] (Some ''1'') [])) = None \<and>
   children (Element ''X'' [(''NAME'', ''p'')] (Some ''1'') []) = [] \<and>
   recursive_parse Map.empty (Element ''X'' [(''NAME'', ''p'')] (Some ''1'') []) =
     Inr (PDict [(Some ''p'', PDict [])])"
  using leaf_fold_doc_xy [THEN conjunct1, rule_format,
      of Map.empty "Element ''X'' [(''NAME'', ''p'')] (Some ''1'') []"]
  by (simp add: get_NAME_def dict_get_def self_key_def)

theorem leaf_fold_doc_xy_counterexample:
  "parse (init doc_xy Map.empty) \<noteq>
     Inr (PDict [(Some ''ROOT'', PDict [(Some ''p'', PStr ''1''), (Some ''q'', PStr ''2'')])])"
  by (simp add: parse_def init_def doc_xy_def self_key_def get_NAME_def dict_get_def)

text \<open>
  C4. A childless element whose tag has no registered strategy passes the collision test as
  not colliding and folds to \<open>{selfKey: {}}\<close>, where \<open>selfKey\<close> is its \<^verbatim>\<open>NAME\<close> attribute if
  present and its tag otherwise; the inner value is the empty mapping, never the element's
  text.
\<close>

theorem leaf_fold_empty_mapping:
  assumes "S (tag e) = None" and "children e = []"
  shows "length (map tag (children e)) = card (set (map tag (children e))) \<and>
         recursive_parse S e =
           Inr (PDict [(case get_NAME e of Some n \<Rightarrow> Some n | None \<Rightarrow> Some (tag e),
                        PDict [])]) \<and>
         recursive_parse S e \<noteq>
           Inr (PDict [(case get_NAME e of Some n \<Rightarrow> Some n | None \<Rightarrow> Some (tag e),
                        case text_of e of None \<Rightarrow> PNone | Some s \<Rightarrow> PStr s)])"
  using assms
  by (simp add: recursive_parse_leaf self_key_def split: option.splits)

theorem leaf_fold_empty_mapping_witness:
  "Map.empty (tag (Element ''ITEM'' [(''NAME'', ''a'')] (Some ''1'') [])) = None \<and>
   children (Element ''ITEM'' [(''NAME'', ''a'')] (Some ''1'') []) = [] \<and>
   recursive_parse Map.empty (Element ''ITEM'' [(''NAME'', ''a'')] (Some ''1'') []) =
     Inr (PDict [(Some ''a'', PDict [])]) \<and>
   recursive_parse Map.empty (Element ''ITEM'' [(''NAME'', ''a'')] (Some ''1'') []) \<noteq>
     Inr (PDict [(Some ''a'', PStr ''1'')]) \<and>
   Map.empty (tag (Element ''ITEM'' [] (Some ''1'') [])) = None \<and>
   children (Element ''ITEM'' [] (Some ''1'') []) = [] \<and>
   recursive_parse Map.empty (Element ''ITEM'' [] (Some ''1'') []) =
     Inr (PDict [(Some ''ITEM'', PDict [])]) \<and>
   recursive_parse Map.empty (Element ''ITEM'' [] (Some ''1'') []) \<noteq>
     Inr (PDict [(Some ''ITEM'', PStr ''1'')])"
  using leaf_fold_empty_mapping [of Map.empty "Element ''ITEM'' [(''NAME'', ''a'')] (Some ''1'') []"]
    leaf_fold_empty_mapping [of Map.empty "Element ''ITEM'' [] (Some ''1'') []"]
  by (simp add: get_NAME_def dict_get_def)

text \<open>
  C5. An element whose tag has a registered strategy folds to exactly what the strategy
  gives for it (a value or a raised error). In the fold of any element \<open>r\<close>, every call of
  \<^verbatim>\<open>recursive_parse\<close> made on the way, at whatever depth below \<open>r\<close>, runs the default
  logic only on an element whose tag has no registered strategy, and hands an element to a
  strategy only when its tag has one.
\<close>

theorem strategy_precedence:
  "(S (tag e) = Some f \<longrightarrow> recursive_parse S e = f e) \<and>
   fst (recursive_parse_log S r) = recursive_parse S r \<and>
   (ByDefault el \<in> set (snd (recursive_parse_log S r)) \<longrightarrow> S (tag el) = None) \<and>
   (ByStrategy el \<in> set (snd (recursive_parse_log S r)) \<longrightarrow> S (tag el) \<noteq> None)"
proof (intro conjI impI)
  assume "S (tag e) = Some f"
  then show "recursive_parse S e = f e" by (rule recursive_parse_registered)
next
  show "fst (recursive_parse_log S r) = recursive_parse S r" by (rule log_result(1))
next
  assume "ByDefault el \<in> set (snd (recursive_parse_log S r))"
  from log_branches(1) [OF this] show "S (tag el) = None" by simp
next
  assume "ByStrategy el \<in> set (snd (recursive_parse_log S r))"
  from log_branches(1) [OF this] show "S (tag el) \<noteq> None" by simp
qed

theorem strategy_precedence_witness:
  "main_strategies (tag (Element ''ATTRIBUTES'' [] None
       [Element ''ATTR'' [(''NAME'', ''h'')] (Some ''3'') []])) = Some AttributeParsingStrategy \<and>
   recursive_parse main_strategies (Element ''ATTRIBUTES'' [] None
       [Element ''ATTR'' [(''NAME'', ''h'')] (Some ''3'') []]) =
     Inr (PDict [(Some ''ATTRIBUTES'', PDict [(Some ''h'', PStr ''3'')])]) \<and>
   recursive_parse main_strategies doc_nested =
     Inr (PDict [(Some ''ROOT'',
       PDict [(Some ''p1'',
         PDict [(Some ''ATTRIBUTES'', PDict [(Some ''h'', PStr ''3'')])])])]) \<and>
   snd (recursive_parse_log main_strategies doc_nested) =
     [ByDefault doc_nested,
      ByDefault (Element ''POLE'' [(''NAME'', ''p1'')] None
        [Element ''ATTRIBUTES'' [] None [Element ''ATTR'' [(''NAME'', ''h'')] (Some ''3'') []]]),
      ByStrategy (Element ''ATTRIBUTES'' [] None
        [Element ''ATTR'' [(''NAME'', ''h'')] (Some ''3'') []])] \<and>
   ByStrategy (Element ''ATTRIBUTES'' [] None
        [Element ''ATTR'' [(''NAME'', ''h'')] (Some ''3'') []])
     \<in> set (snd (recursive_parse_log main_strategies doc_nested)) \<and>
   ByDefault (Element ''ATTRIBUTES'' [] None
        [Element ''ATTR'' [(''NAME'', ''h'')] (Some ''3'') []])
     \<notin> set (snd (recursive_parse_log main_strategies doc_nested))"
proof -
  let ?A = "Element ''ATTRIBUTES'' [] None [Element ''ATTR'' [(''NAME'', ''h'')] (Some ''3'') []]"
  have h: "main_strategies (tag ?A) = Some AttributeParsingStrategy"
    by (simp add: main_strategies_def)
  have l: "snd (recursive_parse_log main_strategies doc_nested) =
     [ByDefault doc_nested,
      ByDefault (Element ''POLE'' [(''NAME'', ''p1'')] None [?A]), ByStrategy ?A]"
    by (simp add: main_strategies_def doc_nested_def AttributeParsingStrategy_def
        self_key_def get_NAME_def dict_get_def)
  have v: "fst (recursive_parse_log main_strategies doc_nested) =
     Inr (PDict [(Some ''ROOT'',
       PDict [(Some ''p1'',
         PDict [(Some ''ATTRIBUTES'', PDict [(Some ''h'', PStr ''3'')])])])])"
    by (simp add: main_strategies_def doc_nested_def AttributeParsingStrategy_def
        self_key_def get_NAME_def dict_get_def)
  note sp = strategy_precedence [of main_strategies ?A AttributeParsingStrategy doc_nested ?A]
  from sp h have a: "recursive_parse main_strategies ?A =
     Inr (PDict [(Some ''ATTRIBUTES'', PDict [(Some ''h'', PStr ''3'')])])"
    by (simp add: AttributeParsingStrategy_def get_NAME_def dict_get_def)
  from sp v have r: "recursive_parse main_strategies doc_nested =
     Inr (PDict [(Some ''ROOT'',
       PDict [(Some ''p1'',
         PDict [(Some ''ATTRIBUTES'', PDict [(Some ''h'', PStr ''3'')])])])])"
    by simp
  have m: "ByStrategy ?A \<in> set (snd (recursive_parse_log main_strategies doc_nested))"
    by (simp add: l)
  from sp h have n: "ByDefault ?A \<notin> set (snd (recursive_parse_log main_strategies doc_nested))"
    by auto
  show ?thesis
    by (intro conjI) (rule h, rule a, rule r, rule l, rule m, rule n)
qed

text \<open>
  C10. When every registered strategy is the attribute strategy, every element folds to a
  record with exactly one key, so the first-item access on a child's result gives that one
  item, and neither loop of the default fold raises.
\<close>

theorem attribute_registry_single_key:
  assumes "ran S \<subseteq> {AttributeParsingStrategy}"
  shows "(\<exists>k v. recursive_parse S e = Inr (PDict [(k, v)]) \<and>
                 first_item (PDict [(k, v)]) = Inr (k, v)) \<and>
         (\<exists>l. list_loop S (children e) [] = Inr l) \<and>
         (\<exists>d. dict_loop S (children e) [] = Inr d)"
proof -
  have ok: "\<exists>k v. f el = Inr (PDict [(k, v)])" if "S t = Some f" for t f el
  proof -
    from that have "f \<in> ran S" by (rule ranI)
    with assms have "f = AttributeParsingStrategy" by auto
    then show ?thesis by (simp add: AttributeParsingStrategy_def)
  qed
  have single: "\<exists>k v. recursive_parse S e' = Inr (PDict [(k, v)])" for e'
    using ok by (rule fold_single_key)
  then have "\<forall>c \<in> set (children e). \<exists>k v. recursive_parse S c = Inr (PDict [(k, v)])"
    by blast
  then have "(\<exists>l. list_loop S (children e) [] = Inr l) \<and> (\<exists>d. dict_loop S (children e) [] = Inr d)"
    by (rule loops_return)
  moreover from single [of e]
  have "\<exists>k v. recursive_parse S e = Inr (PDict [(k, v)]) \<and>
                 first_item (PDict [(k, v)]) = Inr (k, v)"
    by auto
  ultimately show ?thesis by blast
qed

theorem attribute_registry_single_key_witness:
  "ran main_strategies \<subseteq> {AttributeParsingStrategy} \<and>
   (\<exists>k v. recursive_parse main_strategies doc_attributes = Inr (PDict [(k, v)])) \<and>
   recursive_parse main_strategies doc_attributes =
     Inr (PDict [(Some ''ROOT'',
       PDict [(Some ''ATTRIBUTES'', PDict [(Some ''h'', PStr ''3'')]),
              (Some ''p1'', PDict [])])])"
proof -
  have h: "ran main_strategies \<subseteq> {AttributeParsingStrategy}"
    by (simp add: main_strategies_def)
  have v: "recursive_parse main_strategies doc_attributes =
     Inr (PDict [(Some ''ROOT'',
       PDict [(Some ''ATTRIBUTES'', PDict [(Some ''h'', PStr ''3'')]),
              (Some ''p1'', PDict [])])])"
    by (simp add: main_strategies_def doc_attributes_def AttributeParsingStrategy_def
        self_key_def get_NAME_def dict_get_def)
  from attribute_registry_single_key [OF h, of doc_attributes]
  have ex: "\<exists>k v. recursive_parse main_strategies doc_attributes = Inr (PDict [(k, v)])"
    by (elim conjE exE) (rule exI, rule exI, assumption)
  show ?thesis
    by (intro conjI) (rule h, rule ex, rule v)
qed

section \<open>Positions in the tree\<close>

lemma elem_at_append:
  "elem_at e (p @ q) = (case elem_at e p of None \<Rightarrow> None | Some e' \<Rightarrow> elem_at e' q)"
  by (induction p arbitrary: e) auto

lemma elem_at_snoc:
  "elem_at e (p @ [i]) = Some el \<longleftrightarrow>
     (\<exists>e'. elem_at e p = Some e' \<and> i < length (children e') \<and> el = children e' ! i)"
  by (auto simp: elem_at_append split: option.splits)

lemma enumerate_nth: "enumerate n xs = map (\<lambda>i. (n + i, xs ! i)) [0..<length xs]"
  by (rule nth_equalityI) (simp_all add: nth_enumerate_eq)

lemma child_refs_nth:
  "child_refs r =
     map (\<lambda>i. (fst r @ [i], children (snd r) ! i)) [0..<length (children (snd r))]"
  by (simp add: child_refs_def enumerate_nth)

lemma in_child_refs:
  "r' \<in> set (child_refs r) \<longleftrightarrow>
     (\<exists>i < length (children (snd r)). r' = (fst r @ [i], children (snd r) ! i))"
  unfolding child_refs_nth by auto

lemma in_child_positions:
  "q \<in> set (map fst (child_refs r)) \<longleftrightarrow> (\<exists>i < length (children (snd r)). q = fst r @ [i])"
  unfolding child_refs_nth by (auto simp: comp_def)

lemma in_iter:
  "(r \<in> set (iter pos e) \<longleftrightarrow> (\<exists>p. fst r = pos @ p \<and> elem_at e p = Some (snd r)))"
  "(r \<in> set (iter_children pos i cs) \<longleftrightarrow>
      (\<exists>j p. j < length cs \<and> fst r = pos @ (i + j) # p \<and> elem_at (cs ! j) p = Some (snd r)))"
proof (induction pos e and pos i cs arbitrary: r and r rule: iter_iter_children.induct)
  case (1 pos t a x cs)
  show ?case
  proof
    assume "r \<in> set (iter pos (Element t a x cs))"
    then consider "r = (pos, Element t a x cs)" | "r \<in> set (iter_children pos 0 cs)" by auto
    then show "\<exists>p. fst r = pos @ p \<and> elem_at (Element t a x cs) p = Some (snd r)"
    proof cases
      case 1
      then have "fst r = pos @ [] \<and> elem_at (Element t a x cs) [] = Some (snd r)" by simp
      then show ?thesis by blast
    next
      case 2
      then obtain j p where "j < length cs" "fst r = pos @ j # p" "elem_at (cs ! j) p = Some (snd r)"
        using "1.IH" by auto
      then have "fst r = pos @ (j # p) \<and> elem_at (Element t a x cs) (j # p) = Some (snd r)" by simp
      then show ?thesis by blast
    qed
  next
    assume "\<exists>p. fst r = pos @ p \<and> elem_at (Element t a x cs) p = Some (snd r)"
    then obtain p where p: "fst r = pos @ p" "elem_at (Element t a x cs) p = Some (snd r)" by blast
    show "r \<in> set (iter pos (Element t a x cs))"
    proof (cases p)
      case Nil
      with p have "r = (pos, Element t a x cs)" by (cases r) simp
      then show ?thesis by simp
    next
      case (Cons j p')
      with p have "j < length cs" "fst r = pos @ (0 + j) # p'" "elem_at (cs ! j) p' = Some (snd r)"
        by (auto split: if_splits)
      then have "r \<in> set (iter_children pos 0 cs)" using "1.IH" by blast
      then show ?thesis by simp
    qed
  qed
next
  case (2 pos i)
  then show ?case by simp
next
  case (3 pos i child rest)
  show ?case
  proof
    assume "r \<in> set (iter_children pos i (child # rest))"
    then consider "r \<in> set (iter (pos @ [i]) child)" | "r \<in> set (iter_children pos (Suc i) rest)"
      by auto
    then show "\<exists>j p. j < length (child # rest) \<and> fst r = pos @ (i + j) # p \<and>
                 elem_at ((child # rest) ! j) p = Some (snd r)"
    proof cases
      case 1
      then obtain p where "fst r = (pos @ [i]) @ p" "elem_at child p = Some (snd r)"
        using "3.IH"(1) by blast
      then have "0 < length (child # rest) \<and> fst r = pos @ (i + 0) # p \<and>
                 elem_at ((child # rest) ! 0) p = Some (snd r)" by simp
      then show ?thesis by blast
    next
      case 2
      then obtain j p where "j < length rest" "fst r = pos @ (Suc i + j) # p"
        "elem_at (rest ! j) p = Some (snd r)"
        using "3.IH"(2) by blast
      then have "Suc j < length (child # rest) \<and> fst r = pos @ (i + Suc j) # p \<and>
                 elem_at ((child # rest) ! Suc j) p = Some (snd r)" by simp
      then show ?thesis by blast
    qed
  next
    assume "\<exists>j p. j < length (child # rest) \<and> fst r = pos @ (i + j) # p \<and>
                 elem_at ((child # rest) ! j) p = Some (snd r)"
    then obtain j p where j: "j < length (child # rest)" "fst r = pos @ (i + j) # p"
      "elem_at ((child # rest) ! j) p = Some (snd r)" by blast
    show "r \<in> set (iter_children pos i (child # rest))"
    proof (cases j)
      case 0
      with j have "fst r = (pos @ [i]) @ p \<and> elem_at child p = Some (snd r)" by simp
      then have "r \<in> set (iter (pos @ [i]) child)" using "3.IH"(1) by blast
      then show ?thesis by simp
    next
      case (Suc j')
      with j have "j' < length rest \<and> fst r = pos @ (Suc i + j') # p \<and>
                   elem_at (rest ! j') p = Some (snd r)" by simp
      then have "r \<in> set (iter_children pos (Suc i) rest)" using "3.IH"(2) by blast
      then show ?thesis by simp
    qed
  qed
qed

lemma in_iter_root:
  "r \<in> set (iter [] e) \<longleftrightarrow> elem_at e (fst r) = Some (snd r)"
  by (simp add: in_iter(1))

lemma find_parent:
  assumes "elem_at r q = Some eq" and "i < length (children eq)"
  shows "find (\<lambda>parent. q @ [i] \<in> set (map fst (child_refs parent))) (iter [] r) = Some (q, eq)"
proof -
  let ?P = "\<lambda>parent. q @ [i] \<in> set (map fst (child_refs parent))"
  have mem: "(q, eq) \<in> set (iter [] r)" using assms(1) by (simp add: in_iter_root)
  have sat: "?P (q, eq)" using assms(2) by (simp only: in_child_positions) auto
  have "find ?P (iter [] r) \<noteq> None"
    using mem sat by (auto simp: find_None_iff)
  then obtain y where y: "find ?P (iter [] r) = Some y" by auto
  then have Py: "?P y" and y_in: "y \<in> set (iter [] r)"
    by (auto simp: find_Some_iff)
  from Py obtain i' where "q @ [i] = fst y @ [i']"
    unfolding in_child_positions by blast
  then have "fst y = q" by simp
  moreover from y_in have "elem_at r (fst y) = Some (snd y)"
    by (simp add: in_iter_root)
  ultimately have "y = (q, eq)" using assms(1) by (cases y) simp
  with y show ?thesis by simp
qed

section \<open>The pattern of a child's description\<close>

text \<open>
  What \<open>re_match\<close> returns is a split of the string: the tag, an opening bracket, the name,
  a closing bracket, and a rest that the pattern does not look at. Neither group holds a
  newline, and the name holds no opening bracket.
\<close>

lemma last_index_Some:
  "last_index ch xs = Some i \<Longrightarrow> i < length xs \<and> xs ! i = ch \<and> ch \<notin> set (drop (Suc i) xs)"
proof (induction xs arbitrary: i)
  case Nil
  then show ?case by simp
next
  case (Cons x xs)
  show ?case
  proof (cases "last_index ch xs")
    case None
    have "ch \<notin> set xs" using None
      by (induction xs) (auto split: option.splits if_splits)
    with Cons.prems None show ?thesis by (auto split: if_splits)
  next
    case (Some j)
    with Cons.prems have "i = Suc j" by simp
    with Cons.IH [OF Some] show ?thesis by simp
  qed
qed

lemma re_match_Some:
  assumes "re_match s = Some (tg, name)"
  shows "\<exists>rest. s = tg @ ''['' @ name @ '']'' @ rest"
    and "CHR 0x0A \<notin> set tg" and "CHR 0x0A \<notin> set name" and "CHR ''['' \<notin> set name"
proof -
  define L where "L = takeWhile (\<lambda>ch. ch \<noteq> CHR 0x0A) s"
  from assms obtain j i where
    j: "last_index CHR '']'' L = Some j" and
    i: "last_index CHR ''['' (take j L) = Some i" and
    tg: "tg = take i L" and name: "name = drop (Suc i) (take j L)"
    by (auto simp: re_match_def Let_def L_def split: option.splits)
  from last_index_Some [OF j] have j1: "j < length L" and j2: "L ! j = CHR '']''"
    by simp_all
  from last_index_Some [OF i] have i1: "i < length (take j L)"
    and i2: "take j L ! i = CHR ''[''"
    and i3: "CHR ''['' \<notin> set (drop (Suc i) (take j L))"
    by simp_all
  have nl: "CHR 0x0A \<notin> set L"
    unfolding L_def by (auto dest: set_takeWhileD)
  have "take j L @ (L ! j # drop (Suc j) L) = L"
    using j1 by (simp add: Cons_nth_drop_Suc)
  then have l1: "L = take j L @ CHR '']'' # drop (Suc j) L"
    using j2 by simp
  have "take i (take j L) @ (take j L ! i # drop (Suc i) (take j L)) = take j L"
    using i1 by (simp only: Cons_nth_drop_Suc append_take_drop_id)
  moreover have "take i (take j L) = take i L"
    using i1 by (auto simp: min_def split: if_splits)
  ultimately have l2: "take j L = tg @ CHR ''['' # name"
    using i2 tg name by simp
  have "s = L @ dropWhile (\<lambda>ch. ch \<noteq> CHR 0x0A) s"
    unfolding L_def by simp
  then have "s = (take j L @ CHR '']'' # drop (Suc j) L) @ dropWhile (\<lambda>ch. ch \<noteq> CHR 0x0A) s"
    using l1 by simp
  then have "s = tg @ ''['' @ name @ '']'' @ (drop (Suc j) L @ dropWhile (\<lambda>ch. ch \<noteq> CHR 0x0A) s)"
    unfolding l2 by simp
  then show "\<exists>rest. s = tg @ ''['' @ name @ '']'' @ rest" ..
  show "CHR 0x0A \<notin> set tg" using nl tg by (auto dest: in_set_takeD)
  show "CHR 0x0A \<notin> set name" using nl name by (auto dest: in_set_takeD in_set_dropD)
  show "CHR ''['' \<notin> set name" using i3 name by simp
qed

section \<open>The navigation methods\<close>

lemma py_index_mem: "py_index xs i = Inr x \<Longrightarrow> x \<in> set xs"
  by (auto simp: py_index_def split: if_splits)

lemma py_index_nonneg:
  "0 \<le> i \<Longrightarrow> i < int (length xs) \<Longrightarrow> py_index xs i = Inr (xs ! nat i)"
  by (simp add: py_index_def)

lemma children_with_info_subset:
  "set (children_with_info c child_info) \<subseteq> set (child_refs (current_element c))"
  by (auto simp: children_with_info_def split: option.splits)

lemma go_to_child_raises:
  "fst (go_to_child c child_info occurrence) \<noteq> None \<Longrightarrow>
   snd (go_to_child c child_info occurrence) = c"
  by (auto simp: go_to_child_def split: if_splits sum.splits)

lemma go_to_child_returns:
  assumes "fst (go_to_child c child_info occurrence) = None"
  shows "\<exists>i < length (children (snd (current_element c))).
           snd (go_to_child c child_info occurrence) =
             c\<lparr>current_element :=
                  (fst (current_element c) @ [i], children (snd (current_element c)) ! i),
               current_path := current_path c @ [child_info]\<rparr>"
proof -
  from assms obtain child where
    idx: "py_index (children_with_info c child_info) occurrence = Inr child" and
    res: "snd (go_to_child c child_info occurrence) =
            c\<lparr>current_element := child, current_path := current_path c @ [child_info]\<rparr>"
    by (auto simp: go_to_child_def split: if_splits sum.splits)
  from idx have "child \<in> set (children_with_info c child_info)"
    by (rule py_index_mem)
  then have "child \<in> set (child_refs (current_element c))"
    using children_with_info_subset [of c child_info] by (rule subsetD [rotated])
  then obtain i where "i < length (children (snd (current_element c)))"
    "child = (fst (current_element c) @ [i], children (snd (current_element c)) ! i)"
    unfolding in_child_refs by blast
  with res show ?thesis by blast
qed

lemma go_to_parent_root:
  "fst (current_element c) = [] \<Longrightarrow> go_to_parent c = (Some ValueError, c)"
  by (simp add: go_to_parent_def)

lemma go_to_parent_below_root:
  assumes cur: "elem_at (root c) (fst (current_element c)) = Some (snd (current_element c))"
    and below: "fst (current_element c) \<noteq> []"
    and stack: "current_path c \<noteq> []"
  shows "\<exists>eq. elem_at (root c) (butlast (fst (current_element c))) = Some eq \<and>
           go_to_parent c =
             (None, c\<lparr>current_element := (butlast (fst (current_element c)), eq),
                      current_path := butlast (current_path c)\<rparr>)"
proof -
  from below obtain q i where pos: "fst (current_element c) = q @ [i]"
    by (cases "fst (current_element c)" rule: rev_cases) auto
  with cur obtain eq where eq: "elem_at (root c) q = Some eq" "i < length (children eq)"
    by (auto simp: elem_at_snoc)
  from find_parent [OF eq]
  have "find (\<lambda>parent. fst (current_element c) \<in> set (map fst (child_refs parent)))
             (iter [] (root c)) = Some (q, eq)"
    by (simp only: pos)
  with below stack have "go_to_parent c =
      (None, c\<lparr>current_element := (q, eq), current_path := butlast (current_path c)\<rparr>)"
    by (simp add: go_to_parent_def)
  with eq pos show ?thesis by simp
qed

lemma wf_init: "wf_converter (init r S)"
  by (simp add: wf_converter_def init_def)

lemma wf_set_strategy: "wf_converter c \<Longrightarrow> wf_converter (set_strategy c S)"
  by (simp add: wf_converter_def set_strategy_def)

lemma wf_add_to_data: "wf_converter c \<Longrightarrow> wf_converter (snd (add_to_data c path key))"
  by (auto simp: wf_converter_def add_to_data_def Let_def split: sum.splits)

lemma wf_go_to_child:
  assumes "wf_converter c"
  shows "wf_converter (snd (go_to_child c child_info occurrence))"
proof (cases "fst (go_to_child c child_info occurrence)")
  case None
  from go_to_child_returns [OF None] obtain i where
    "i < length (children (snd (current_element c)))"
    "snd (go_to_child c child_info occurrence) =
       c\<lparr>current_element :=
            (fst (current_element c) @ [i], children (snd (current_element c)) ! i),
          current_path := current_path c @ [child_info]\<rparr>"
    by blast
  with assms show ?thesis
    by (simp add: wf_converter_def elem_at_snoc)
next
  case (Some err)
  then have "snd (go_to_child c child_info occurrence) = c"
    by (simp add: go_to_child_raises)
  with assms show ?thesis by simp
qed

lemma wf_go_to_parent:
  assumes "wf_converter c"
  shows "wf_converter (snd (go_to_parent c))"
proof (cases "fst (current_element c) = []")
  case True
  with assms show ?thesis by (simp add: go_to_parent_root)
next
  case False
  from assms have cur: "elem_at (root c) (fst (current_element c)) = Some (snd (current_element c))"
    and len: "length (current_path c) = Suc (length (fst (current_element c)))"
    by (simp_all add: wf_converter_def)
  from len have stack: "current_path c \<noteq> []" by auto
  from go_to_parent_below_root [OF cur False stack] obtain eq where
    "elem_at (root c) (butlast (fst (current_element c))) = Some eq"
    "go_to_parent c =
       (None, c\<lparr>current_element := (butlast (fst (current_element c)), eq),
                current_path := butlast (current_path c)\<rparr>)"
    by blast
  with len False show ?thesis
    by (simp add: wf_converter_def)
qed

lemma reachable_wf: "reachable c \<Longrightarrow> wf_converter c"
  by (induction rule: reachable.induct)
     (simp_all add: wf_init wf_set_strategy wf_go_to_child wf_go_to_parent wf_add_to_data)

section \<open>The scenario document under the navigation methods\<close>

lemma re_match_ITEM_a: "re_match ''ITEM[a]'' = Some (''ITEM'', ''a'')"
  by (simp add: re_match_def)

lemma re_match_bare: "re_match ''ITEM'' = None" "re_match ''ROOT'' = None" "re_match ''NOPE'' = None"
  by (simp_all add: re_match_def)

lemma doc_items_sel:
  "tag doc_items = ''ROOT''" "attrib doc_items = []" "text_of doc_items = None"
  by (simp_all add: doc_items_def)

lemma child_refs_doc_items:
  "child_refs ([], doc_items) =
     [([0], Element ''ITEM'' [(''NAME'', ''a'')] (Some ''1'') []),
      ([1], Element ''ITEM'' [(''NAME'', ''b'')] (Some ''2'') [])]"
  by (simp add: child_refs_def doc_items_def enumerate_eq_zip upt_rec)

section \<open>Claims about navigation and extraction\<close>

text \<open>
  C6. In a converter state whose cursor refers to an element of the tree, a successful
  \<^verbatim>\<open>go_to_child\<close> (for any occurrence; the default is 0) followed by \<^verbatim>\<open>go_to_parent\<close>
  returns without error and gives back the state before the two calls, hence the same
  \<^verbatim>\<open>get_current_info\<close> and the same \<^verbatim>\<open>get_current_path\<close>.
\<close>

theorem navigation_round_trip:
  assumes "wf_converter c" and "fst (go_to_child c child_info occurrence) = None"
  shows "go_to_parent (snd (go_to_child c child_info occurrence)) = (None, c) \<and>
         get_current_info (snd (go_to_parent (snd (go_to_child c child_info occurrence)))) =
           get_current_info c \<and>
         get_current_path (snd (go_to_parent (snd (go_to_child c child_info occurrence)))) =
           get_current_path c"
proof -
  let ?c' = "snd (go_to_child c child_info occurrence)"
  from go_to_child_returns [OF assms(2)] obtain i where
    i: "i < length (children (snd (current_element c)))" and
    c': "?c' = c\<lparr>current_element :=
                  (fst (current_element c) @ [i], children (snd (current_element c)) ! i),
                current_path := current_path c @ [child_info]\<rparr>"
    by blast
  from assms(1) have cur: "elem_at (root c) (fst (current_element c)) = Some (snd (current_element c))"
    by (simp add: wf_converter_def)
  have cur': "elem_at (root ?c') (fst (current_element ?c')) = Some (snd (current_element ?c'))"
    using cur i by (simp add: c' elem_at_snoc)
  have below: "fst (current_element ?c') \<noteq> []" and stack: "current_path ?c' \<noteq> []"
    by (simp_all add: c')
  from go_to_parent_below_root [OF cur' below stack] obtain eq where
    eq: "elem_at (root ?c') (butlast (fst (current_element ?c'))) = Some eq" and
    up: "go_to_parent ?c' =
       (None, ?c'\<lparr>current_element := (butlast (fst (current_element ?c')), eq),
                  current_path := butlast (current_path ?c')\<rparr>)"
    by blast
  from eq cur have "eq = snd (current_element c)" by (simp add: c')
  with up have "go_to_parent ?c' = (None, c)" by (simp add: c')
  then show ?thesis by simp
qed

theorem navigation_round_trip_witness:
  "wf_converter (init doc_items Map.empty) \<and>
   fst (go_to_child (init doc_items Map.empty) ''ITEM[a]'' 0) = None \<and>
   get_current_info (snd (go_to_child (init doc_items Map.empty) ''ITEM[a]'' 0)) =
     (''ITEM'', Some ''a'', Some ''1'') \<and>
   get_current_path (snd (go_to_child (init doc_items Map.empty) ''ITEM[a]'' 0)) =
     ''ROOT/ITEM[a]'' \<and>
   go_to_parent (snd (go_to_child (init doc_items Map.empty) ''ITEM[a]'' 0)) =
     (None, init doc_items Map.empty) \<and>
   get_current_info (snd (go_to_parent (snd (go_to_child (init doc_items Map.empty) ''ITEM[a]'' 0)))) =
     (''ROOT'', None, None) \<and>
   get_current_path (snd (go_to_parent (snd (go_to_child (init doc_items Map.empty) ''ITEM[a]'' 0)))) =
     ''ROOT''"
proof -
  have w: "wf_converter (init doc_items Map.empty)" by (rule wf_init)
  have g: "go_to_child (init doc_items Map.empty) ''ITEM[a]'' 0 =
     (None, (init doc_items Map.empty)
        \<lparr>current_element := ([0], Element ''ITEM'' [(''NAME'', ''a'')] (Some ''1'') []),
         current_path := [''ROOT'', ''ITEM[a]'']\<rparr>)"
    by (simp add: go_to_child_def children_with_info_def re_match_ITEM_a init_def
        child_refs_doc_items py_index_def get_NAME_def dict_get_def doc_items_sel)
  then have s: "fst (go_to_child (init doc_items Map.empty) ''ITEM[a]'' 0) = None" by simp
  have i: "get_current_info (init doc_items Map.empty) = (''ROOT'', None, None)"
    "get_current_path (init doc_items Map.empty) = ''ROOT''"
    by (simp_all add: get_current_info_def get_current_path_def init_def doc_items_sel
        get_NAME_def dict_get_def)
  have i': "get_current_info (snd (go_to_child (init doc_items Map.empty) ''ITEM[a]'' 0)) =
     (''ITEM'', Some ''a'', Some ''1'')"
    "get_current_path (snd (go_to_child (init doc_items Map.empty) ''ITEM[a]'' 0)) =
     ''ROOT/ITEM[a]''"
    by (simp_all add: g get_current_info_def get_current_path_def get_NAME_def dict_get_def)
  from navigation_round_trip [OF w s] w s i i' show ?thesis by simp
qed

text \<open>
  C7. \<^verbatim>\<open>add_to_data\<close> drops the first piece of the split path and resolves the others
  below the root. On the document with the two \<^verbatim>\<open>ITEM\<close> children the path
  \<^verbatim>\<open>ROOT/ITEM[a]\<close>, whose first piece stands for the root, succeeds and stores the text
  \<^verbatim>\<open>1\<close> under the key \<^verbatim>\<open>a\<close>; so does \<^verbatim>\<open>/ITEM[a]\<close>, whose first piece is empty.
\<close>

theorem add_to_data_from_root:
  "fst (add_to_data (init doc_items Map.empty) ''ROOT/ITEM[a]'' None) = None \<and>
   data (snd (add_to_data (init doc_items Map.empty) ''ROOT/ITEM[a]'' None)) =
     [(Some ''a'', Some ''1'')] \<and>
   dict_get (data (snd (add_to_data (init doc_items Map.empty) ''ROOT/ITEM[a]'' None)))
     (Some ''a'') = Some (Some ''1'') \<and>
   fst (add_to_data (init doc_items Map.empty) ''/ITEM[a]'' None) = None \<and>
   dict_get (data (snd (add_to_data (init doc_items Map.empty) ''/ITEM[a]'' None)))
     (Some ''a'') = Some (Some ''1'')"
  by (simp add: add_to_data_def str_split_def re_match_ITEM_a init_def doc_items_def
      get_NAME_def dict_get_def)

text \<open>
  With the path \<^verbatim>\<open>/ROOT/ITEM[a]\<close> the dropped piece is the empty one before the first
  slash, \<^verbatim>\<open>ROOT\<close> is looked for among the children of the root, and the call raises
  without storing anything.
\<close>

theorem add_to_data_counterexample:
  "fst (add_to_data (init doc_items Map.empty) ''/ROOT/ITEM[a]'' None) = Some ValueError \<and>
   dict_get (data (snd (add_to_data (init doc_items Map.empty) ''/ROOT/ITEM[a]'' None)))
     (Some ''a'') = None"
  by (simp add: add_to_data_def str_split_def re_match_bare init_def doc_items_def
      get_NAME_def dict_get_def)

text \<open>
  C8. In such a state \<^verbatim>\<open>go_to_parent\<close> raises exactly when the cursor is the root, and a
  call of \<^verbatim>\<open>go_to_parent\<close> or \<^verbatim>\<open>go_to_child\<close> that raises leaves the whole state, so the
  cursor and the path stack, as it was.
\<close>

theorem navigation_errors:
  assumes "wf_converter c"
  shows "(fst (go_to_parent c) \<noteq> None \<longleftrightarrow> current_element c = ([], root c)) \<and>
         (fst (go_to_parent c) \<noteq> None \<longrightarrow> snd (go_to_parent c) = c) \<and>
         (fst (go_to_child c child_info occurrence) \<noteq> None \<longrightarrow>
            snd (go_to_child c child_info occurrence) = c)"
proof -
  from assms have cur: "elem_at (root c) (fst (current_element c)) = Some (snd (current_element c))"
    and len: "length (current_path c) = Suc (length (fst (current_element c)))"
    by (simp_all add: wf_converter_def)
  have at_root: "current_element c = ([], root c) \<longleftrightarrow> fst (current_element c) = []"
    using cur by (cases "current_element c") auto
  show ?thesis
  proof (cases "fst (current_element c) = []")
    case True
    then show ?thesis
      by (simp add: at_root go_to_parent_root go_to_child_raises)
  next
    case False
    from len have stack: "current_path c \<noteq> []" by auto
    from go_to_parent_below_root [OF cur False stack]
    have "fst (go_to_parent c) = None" by auto
    with False show ?thesis
      by (simp add: at_root go_to_child_raises)
  qed
qed

theorem navigation_errors_witness:
  "wf_converter (init doc_items Map.empty) \<and>
   current_element (init doc_items Map.empty) = ([], root (init doc_items Map.empty)) \<and>
   fst (go_to_parent (init doc_items Map.empty)) = Some ValueError \<and>
   snd (go_to_parent (init doc_items Map.empty)) = init doc_items Map.empty \<and>
   fst (go_to_child (init doc_items Map.empty) ''NOPE'' 0) = Some ValueError \<and>
   snd (go_to_child (init doc_items Map.empty) ''NOPE'' 0) = init doc_items Map.empty"
proof -
  have w: "wf_converter (init doc_items Map.empty)" by (rule wf_init)
  have r: "current_element (init doc_items Map.empty) = ([], root (init doc_items Map.empty))"
    by (simp add: init_def)
  have p: "fst (go_to_parent (init doc_items Map.empty)) = Some ValueError"
    by (simp add: go_to_parent_def init_def)
  have c: "fst (go_to_child (init doc_items Map.empty) ''NOPE'' 0) = Some ValueError"
    by (simp add: go_to_child_def children_with_info_def re_match_bare init_def
        child_refs_doc_items)
  from navigation_errors [OF w, of "''NOPE''" 0] w r p c show ?thesis by simp
qed

text \<open>
  C9. The guard of \<^verbatim>\<open>go_to_child\<close> only tests the occurrence against the number of
  matches from above. On the document with the two \<^verbatim>\<open>ITEM\<close> children, occurrence \<open>-1\<close>
  for \<^verbatim>\<open>ITEM\<close> raises nothing and moves the cursor to the last match, and occurrence
  \<open>-1\<close> for a tag with no match raises \<^verbatim>\<open>IndexError\<close> from the indexing, not the
  \<^verbatim>\<open>ValueError\<close> of the guard.
\<close>

theorem go_to_child_negative_occurrence:
  "length (children_with_info (init doc_items Map.empty) ''ITEM'') = 2 \<and>
   fst (go_to_child (init doc_items Map.empty) ''ITEM'' (- 1)) = None \<and>
   current_element (snd (go_to_child (init doc_items Map.empty) ''ITEM'' (- 1))) =
     ([1], Element ''ITEM'' [(''NAME'', ''b'')] (Some ''2'') []) \<and>
   current_path (snd (go_to_child (init doc_items Map.empty) ''ITEM'' (- 1))) =
     [''ROOT'', ''ITEM''] \<and>
   length (children_with_info (init doc_items Map.empty) ''NOPE'') = 0 \<and>
   fst (go_to_child (init doc_items Map.empty) ''NOPE'' (- 1)) = Some IndexError"
  by (simp add: go_to_child_def children_with_info_def re_match_bare init_def
      child_refs_doc_items py_index_def doc_items_sel)

text \<open>
  For an occurrence that is not negative the method does what C9 says: it raises
  \<^verbatim>\<open>ValueError\<close> exactly when the occurrence is not below the number of matches, and
  otherwise moves to that match and appends the child's description to the path stack.
\<close>

lemma go_to_child_in_range:
  assumes "0 \<le> occurrence"
  shows "(fst (go_to_child c child_info occurrence) \<noteq> None \<longleftrightarrow>
            \<not> occurrence < int (length (children_with_info c child_info))) \<and>
         (fst (go_to_child c child_info occurrence) \<noteq> None \<longrightarrow>
            go_to_child c child_info occurrence = (Some ValueError, c)) \<and>
         (occurrence < int (length (children_with_info c child_info)) \<longrightarrow>
            go_to_child c child_info occurrence =
              (None, c\<lparr>current_element := children_with_info c child_info ! nat occurrence,
                        current_path := current_path c @ [child_info]\<rparr>))"
  using assms by (simp add: go_to_child_def py_index_nonneg)

end
